theory Spec2Isabelle
  imports Main "HOL-Library.Word"
begin

section \<open>Data model of package rsync (rsync.go)\<close>

text \<open>
  Bytes are 8-bit words and the checksum halves are Go \<open>uint32\<close> values, so
  \<open>+\<close>, \<open>-\<close> and \<open>*\<close> wrap modulo \<open>2 ^ 32\<close> exactly as in the source.
  A byte buffer is a list. A Go slice expression is bounded by the capacity of the
  buffer, not by its length, so where a function slices a buffer its argument is the
  buffer up to its capacity; unless a result says otherwise the capacity equals the
  length (a literal, or the result of \<open>make\<close>).
  Offsets and lengths of buffers held in memory are natural numbers. The \<open>index\<close>
  and \<open>blockIndex\<close> fields are Go \<open>int\<close> values that arrive from outside, so they
  are integers, and the one place that does arithmetic on them wraps as a 64-bit
  signed machine integer does.
\<close>

type_synonym byte = "8 word"
type_synonym uint32 = "32 word"

definition BlockSize :: nat where
  "BlockSize = 2"

definition M :: uint32 where
  "M = 65536"

text \<open>
  The strong hash is \<open>crypto/md5\<close> of the Go standard library. It is a parameter
  \<open>sh\<close> of every function that calls it, so each result holds for any digest.
\<close>

record 'h BlockHash =
  index :: int
  strongHashV :: 'h
  weakHashV :: uint32

definition BLOCK :: int where
  "BLOCK = 0"

definition DATA :: int where
  "DATA = 1"

record RSyncOp =
  opCode :: int
  data :: "byte list"
  blockIndex :: int

datatype panic = SliceBoundsOutOfRange | MakeSliceLenOutOfRange

text \<open>Go's \<open>s[a:b]\<close> where \<open>a \<le> b \<le> cap s\<close>; the callers check the bounds.\<close>

definition subslice :: "'a list \<Rightarrow> nat \<Rightarrow> nat \<Rightarrow> 'a list" where
  "subslice xs a b = take (b - a) (drop a xs)"

section \<open>Weak hash\<close>

text \<open>
  The loop of \<open>weakHash\<close>: \<open>vs\<close> is the part of \<open>v\<close> still to visit, \<open>i\<close> the
  index of its head and \<open>n\<close> is \<open>len(v)\<close>.
\<close>

fun weakHash_loop :: "byte list \<Rightarrow> nat \<Rightarrow> nat \<Rightarrow> uint32 \<Rightarrow> uint32 \<Rightarrow> uint32 \<times> uint32" where
  "weakHash_loop [] i n a b = (a, b)"
| "weakHash_loop (x # vs) i n a b =
     weakHash_loop vs (Suc i) n
       (a + ucast x)
       (b + (of_nat (n - 1) - of_nat i + 1) * ucast x)"

definition weakHash :: "byte list \<Rightarrow> uint32 \<times> uint32 \<times> uint32" where
  "weakHash v =
     (case weakHash_loop v 0 (length v) 0 0 of
        (a, b) \<Rightarrow> ((a mod M) + (2 ^ 16 * (b mod M)), a mod M, b mod M))"

text \<open>The incremental update in the scan loop of \<open>CalculateDifferences\<close>.\<close>

definition roll :: "byte list \<Rightarrow> nat \<Rightarrow> nat \<Rightarrow> uint32 \<Rightarrow> uint32 \<Rightarrow> uint32 \<times> uint32 \<times> uint32" where
  "roll content offset endingByte aweak bweak =
     (let aweak' = (aweak - ucast (content ! (offset - 1)) + ucast (content ! (endingByte - 1))) mod M;
          bweak' = (bweak - (of_nat (endingByte - offset) * ucast (content ! (offset - 1))) + aweak') mod M
      in (aweak' + (2 ^ 16 * bweak'), aweak', bweak'))"

section \<open>Block hashes\<close>

definition getBlocksNumber :: "'a list \<Rightarrow> nat" where
  "getBlocksNumber content =
     (let blockNumber = length content div BlockSize
      in if length content mod BlockSize \<noteq> 0 then blockNumber + 1 else blockNumber)"

definition blockHashAt :: "(byte list \<Rightarrow> 'h) \<Rightarrow> byte list \<Rightarrow> nat \<Rightarrow> 'h BlockHash" where
  "blockHashAt sh content i =
     (let initialByte = i * BlockSize;
          endingByte = min ((i + 1) * BlockSize) (length content);
          block = subslice content initialByte endingByte
      in \<lparr>index = int i, strongHashV = sh block, weakHashV = fst (weakHash block)\<rparr>)"

definition CalculateBlockHashes :: "(byte list \<Rightarrow> 'h) \<Rightarrow> byte list \<Rightarrow> 'h BlockHash list" where
  "CalculateBlockHashes sh content = map (blockHashAt sh content) [0 ..< getBlocksNumber content]"

section \<open>Reconstruction\<close>

text \<open>
  Go's \<open>copy(dst, src)\<close> where \<open>dst\<close> is the window \<open>[lo, hi)\<close> of \<open>result\<close>:
  it copies \<open>min (len dst) (len src)\<close> elements and leaves the rest untouched.
\<close>

definition copyInto :: "'a list \<Rightarrow> nat \<Rightarrow> nat \<Rightarrow> 'a list \<Rightarrow> 'a list" where
  "copyInto result lo hi src =
     (let n = min (hi - lo) (length src)
      in take lo result @ take n src @ drop (lo + n) result)"

text \<open>
  Arithmetic on a Go \<open>int\<close> (64 bits) does not panic on overflow: the result is the
  two's complement value.
\<close>

definition wrapInt :: "int \<Rightarrow> int" where
  "wrapInt x = (x + 2 ^ 63) mod 2 ^ 64 - 2 ^ 63"

text \<open>
  The body of \<open>for op := range ops\<close>. A slice expression \<open>s[lo:hi]\<close> panics unless
  \<open>0 \<le> lo \<le> hi \<le> cap s\<close>; \<open>result[offset:]\<close> panics unless \<open>offset \<le> len result\<close>.
  The destination slice is evaluated before the source slice. An operation whose
  \<open>opCode\<close> is neither \<open>BLOCK\<close> nor \<open>DATA\<close> falls through the \<open>switch\<close>.
\<close>

fun ApplyOps_loop :: "byte list \<Rightarrow> RSyncOp list \<Rightarrow> byte list \<Rightarrow> nat \<Rightarrow> panic + byte list" where
  "ApplyOps_loop content [] result offset = Inr result"
| "ApplyOps_loop content (op # ops) result offset =
     (if opCode op = BLOCK then
        (if length result < offset + BlockSize then Inl SliceBoundsOutOfRange
         else
           (let lo = wrapInt (blockIndex op * int BlockSize);
                hi = wrapInt (lo + int BlockSize)
            in if lo < 0 \<or> hi < lo \<or> int (length content) < hi then Inl SliceBoundsOutOfRange
               else ApplyOps_loop content ops
                      (copyInto result offset (offset + BlockSize) (subslice content (nat lo) (nat hi)))
                      (offset + BlockSize)))
      else if opCode op = DATA then
        (if length result < offset then Inl SliceBoundsOutOfRange
         else ApplyOps_loop content ops
                (copyInto result offset (length result) (data op))
                (offset + length (data op)))
      else ApplyOps_loop content ops result offset)"

definition ApplyOps :: "byte list \<Rightarrow> RSyncOp list \<Rightarrow> int \<Rightarrow> panic + byte list" where
  "ApplyOps content ops fileSize =
     (if fileSize < 0 then Inl MakeSliceLenOutOfRange
      else ApplyOps_loop content ops (replicate (nat fileSize) 0) 0)"

section \<open>Differences\<close>

text \<open>
  \<open>hashesMap\<close> is a Go map from weak hash to the slice of block hashes with that
  weak hash; a missing key reads as \<open>nil\<close>, here \<open>None\<close>.
\<close>

definition addHash :: "(uint32 \<rightharpoonup> 'h BlockHash list) \<Rightarrow> 'h BlockHash \<Rightarrow> (uint32 \<rightharpoonup> 'h BlockHash list)" where
  "addHash hashesMap h =
     hashesMap(weakHashV h \<mapsto> (case hashesMap (weakHashV h) of None \<Rightarrow> [] | Some l \<Rightarrow> l) @ [h])"

definition buildHashesMap :: "'h BlockHash list \<Rightarrow> (uint32 \<rightharpoonup> 'h BlockHash list)" where
  "buildHashesMap hashes = foldl addHash Map.empty hashes"

fun searchStrongHash :: "'h BlockHash list \<Rightarrow> 'h \<Rightarrow> 'h BlockHash option" where
  "searchStrongHash [] hashValue = None"
| "searchStrongHash (blockHash # l) hashValue =
     (if strongHashV blockHash = hashValue then Some blockHash else searchStrongHash l hashValue)"

text \<open>Line 140: the end of the window that starts at \<open>offset\<close>.\<close>

definition windowEnd :: "byte list \<Rightarrow> nat \<Rightarrow> nat" where
  "windowEnd content offset = min (offset + BlockSize) (length content - 1)"

text \<open>Lines 143 to 154: the weak hash of the window, recomputed or rolled.\<close>

definition windowHash :: "byte list \<Rightarrow> nat \<Rightarrow> nat \<Rightarrow> bool \<Rightarrow> uint32 \<Rightarrow> uint32 \<Rightarrow> uint32 \<times> uint32 \<times> uint32" where
  "windowHash content offset endingByte isRolling aweak bweak =
     (if \<not> isRolling then weakHash (subslice content offset endingByte)
      else roll content offset endingByte aweak bweak)"

text \<open>Lines 156 to 158: bucket lookup, then the strong hash search in the bucket.\<close>

definition findBlock :: "(uint32 \<rightharpoonup> 'h BlockHash list) \<Rightarrow> uint32 \<Rightarrow> 'h \<Rightarrow> 'h BlockHash option" where
  "findBlock hashesMap weak hashValue =
     (case hashesMap weak of None \<Rightarrow> None | Some l \<Rightarrow> searchStrongHash l hashValue)"

definition dataOp :: "byte list \<Rightarrow> RSyncOp" where
  "dataOp bs = \<lparr>opCode = DATA, data = bs, blockIndex = 0\<rparr>"

definition blockOp :: "int \<Rightarrow> RSyncOp" where
  "blockOp i = \<lparr>opCode = BLOCK, data = [], blockIndex = i\<rparr>"

text \<open>
  The scan loop. The operations sent on the channel are the returned list, in order.
  The variable \<open>weak\<close> of the source is assigned in every iteration before it is read,
  so it is not part of the loop state. The rolling branch reads \<open>content[offset-1]\<close>
  and \<open>content[endingByte-1]\<close>; \<open>isRolling\<close> is only set by an iteration that then
  moves \<open>offset\<close> forward, so both indices are in range there.
\<close>

function CalculateDifferences_loop ::
  "(byte list \<Rightarrow> 'h) \<Rightarrow> byte list \<Rightarrow> (uint32 \<rightharpoonup> 'h BlockHash list) \<Rightarrow>
   nat \<Rightarrow> nat \<Rightarrow> uint32 \<Rightarrow> uint32 \<Rightarrow> bool \<Rightarrow> bool \<Rightarrow> RSyncOp list" where
  "CalculateDifferences_loop sh content hashesMap offset previousMatch aweak bweak dirty isRolling =
     (if offset < length content then
        (let endingByte = windowEnd content offset;
             block = subslice content offset endingByte;
             h = windowHash content offset endingByte isRolling aweak bweak
         in case findBlock hashesMap (fst h) (sh block) of
              Some blockHash \<Rightarrow>
                (if dirty then [dataOp (subslice content previousMatch offset)] else [])
                @ [blockOp (index blockHash)]
                @ CalculateDifferences_loop sh content hashesMap
                    (offset + BlockSize) endingByte (fst (snd h)) (snd (snd h)) False False
            | None \<Rightarrow>
                CalculateDifferences_loop sh content hashesMap
                  (offset + 1) previousMatch (fst (snd h)) (snd (snd h)) True True)
      else if dirty then [dataOp (subslice content previousMatch (length content))] else [])"
  by pat_completeness auto
termination
  by (relation "measure (\<lambda>(sh, content, hashesMap, offset, rest). length content - offset)")
     (auto simp: BlockSize_def)

declare CalculateDifferences_loop.simps [simp del]

definition CalculateDifferences :: "(byte list \<Rightarrow> 'h) \<Rightarrow> byte list \<Rightarrow> 'h BlockHash list \<Rightarrow> RSyncOp list" where
  "CalculateDifferences sh content hashes =
     CalculateDifferences_loop sh content (buildHashesMap hashes) 0 0 0 0 False False"

section \<open>Notions used to state the results\<close>

text \<open>
  The two sums that \<open>weakHash\<close> accumulates, as \<open>uint32\<close> values: the plain sum of
  the bytes, and the sum in which the first byte has weight \<open>w\<close>, the next \<open>w - 1\<close>,
  and so on.
\<close>

fun byteSum :: "byte list \<Rightarrow> uint32" where
  "byteSum [] = 0"
| "byteSum (x # xs) = ucast x + byteSum xs"

fun weightedSum :: "uint32 \<Rightarrow> byte list \<Rightarrow> uint32" where
  "weightedSum w [] = 0"
| "weightedSum w (x # xs) = w * ucast x + weightedSum (w - 1) xs"



text \<open>
  Block \<open>k\<close> is a full block within a capacity: its \<open>BlockSize\<close> bytes, from offset
  \<open>k * BlockSize\<close> on, lie inside a buffer of capacity \<open>cap\<close>, at offsets that a Go
  \<open>int\<close> holds.
\<close>

definition fullBlockWithin :: "nat \<Rightarrow> int \<Rightarrow> bool" where
  "fullBlockWithin cap k \<longleftrightarrow>
     0 \<le> k \<and> (k + 1) * int BlockSize \<le> int cap \<and> (k + 1) * int BlockSize < 2 ^ 63"


section \<open>Slices\<close>

lemma subslice_eq_Nil: "subslice xs a b = [] \<longleftrightarrow> b \<le> a \<or> length xs \<le> a"
  by (auto simp: subslice_def)

lemma subslice_Cons:
  assumes "0 < offset" "offset < endingByte" "endingByte \<le> length content"
  shows "subslice content (offset - 1) (endingByte - 1) =
         content ! (offset - 1) # subslice content offset (endingByte - 1)"
proof -
  from assms have d: "drop (offset - 1) content = content ! (offset - 1) # drop offset content"
    using Cons_nth_drop_Suc [of "offset - 1" content] by simp
  from assms have e: "endingByte - 1 - (offset - 1) = Suc (endingByte - 1 - offset)"
    by arith
  show ?thesis unfolding subslice_def e d by simp
qed

lemma subslice_snoc:
  assumes "offset < endingByte" "endingByte \<le> length content"
  shows "subslice content offset endingByte =
         subslice content offset (endingByte - 1) @ [content ! (endingByte - 1)]"
proof -
  from assms have e: "endingByte - offset = Suc (endingByte - 1 - offset)"
    by arith
  from assms have l: "endingByte - 1 - offset < length (drop offset content)"
    by simp
  from assms have n: "drop offset content ! (endingByte - 1 - offset) = content ! (endingByte - 1)"
    by simp
  show ?thesis
    unfolding subslice_def e using take_Suc_conv_app_nth [OF l] n by simp
qed

section \<open>The weak hash in closed form\<close>

lemma weakHash_loop_sums:
  "weakHash_loop vs i n a b =
     (a + byteSum vs, b + weightedSum (of_nat (n - 1) - of_nat i + 1) vs)"
  by (induction vs arbitrary: i a b) (simp_all add: algebra_simps)

lemma weakHash_sums:
  "weakHash v =
     (byteSum v mod M + 2 ^ 16 * (weightedSum (of_nat (length v)) v mod M),
      byteSum v mod M, weightedSum (of_nat (length v)) v mod M)"
  by (cases v) (simp_all add: weakHash_def weakHash_loop_sums add.commute)

lemma byteSum_snoc: "byteSum (xs @ [y]) = byteSum xs + ucast y"
  by (induction xs) simp_all

lemma weightedSum_snoc:
  "weightedSum w (xs @ [y]) = weightedSum w xs + (w - of_nat (length xs)) * ucast y"
  by (induction xs arbitrary: w) (simp_all add: algebra_simps)

lemma weightedSum_pred: "weightedSum w xs = weightedSum (w - 1) xs + byteSum xs"
proof (induction xs arbitrary: w)
  case Nil
  show ?case by simp
next
  case (Cons x xs)
  show ?case
    using Cons.IH [of "w - 1"] by (simp add: algebra_simps)
qed

text \<open>
  C8. For the ten bytes 0, 1, ..., 9 taken as one window, \<open>weakHash\<close> returns
  weak = 10813485, a = 45 and b = 165. In general a is the sum of the bytes modulo
  65536, b is the sum of the bytes weighted by window length minus position, modulo
  65536, and weak is a plus b times \<open>2 ^ 16\<close>.
\<close>

theorem weakHash_fixture:
  "weakHash [0, 1, 2, 3, 4, 5, 6, 7, 8, 9] = (10813485, 45, 165)
   \<and> fst (snd (weakHash v)) = byteSum v mod 65536
   \<and> snd (snd (weakHash v)) = weightedSum (of_nat (length v)) v mod 65536
   \<and> fst (weakHash v) = fst (snd (weakHash v)) + 2 ^ 16 * snd (snd (weakHash v))"
proof -
  have "weakHash [0, 1, 2, 3, 4, 5, 6, 7, 8, 9] = (10813485, 45, 165)"
    by (simp add: weakHash_def M_def)
  then show ?thesis
    by (simp add: weakHash_sums [of v] M_def)
qed

section \<open>Rolling\<close>

text \<open>Reduction modulo \<open>M\<close> commutes with \<open>uint32\<close> addition, as \<open>M\<close> divides \<open>2 ^ 32\<close>.\<close>

lemma mod_M_add_left: "(x mod M + z) mod M = (x + z) mod M"
proof -
  have "uint ((x mod M + z) mod M) = uint ((x + z) mod M)"
    by (simp add: M_def uint_mod uint_word_ariths mod_mod_cancel mod_add_left_eq)
  then show ?thesis by (simp only: word_uint_eq_iff)
qed

lemma mod_M_add_right: "(z + x mod M) mod M = (z + x) mod M"
  using mod_M_add_left [of x z] by (simp add: add.commute)

lemma roll_step:
  assumes "content ! (offset - 1) = x" "content ! (endingByte - 1) = y"
    and "endingByte - offset = Suc (length mid)"
  shows "roll content offset endingByte
           (fst (snd (weakHash (x # mid)))) (snd (snd (weakHash (x # mid))))
         = weakHash (mid @ [y])"
proof -
  let ?L = "of_nat (Suc (length mid)) :: uint32"
  have a: "(byteSum (x # mid) mod M - ucast x + ucast y) mod M = byteSum (mid @ [y]) mod M"
  proof -
    have "byteSum (x # mid) mod M - ucast x + ucast y
          = byteSum (x # mid) mod M + (ucast y - ucast x)"
      by simp
    then have "(byteSum (x # mid) mod M - ucast x + ucast y) mod M
          = (byteSum (x # mid) + (ucast y - ucast x)) mod M"
      by (simp only: mod_M_add_left)
    then show ?thesis by (simp add: byteSum_snoc)
  qed
  have b: "(weightedSum ?L (x # mid) mod M - ?L * ucast x + byteSum (mid @ [y]) mod M) mod M
           = weightedSum ?L (mid @ [y]) mod M"
  proof -
    have "weightedSum ?L (x # mid) mod M - ?L * ucast x + byteSum (mid @ [y]) mod M
          = weightedSum ?L (x # mid) mod M + (byteSum (mid @ [y]) mod M - ?L * ucast x)"
      by simp
    then have "(weightedSum ?L (x # mid) mod M - ?L * ucast x + byteSum (mid @ [y]) mod M) mod M
          = (weightedSum ?L (x # mid) + (byteSum (mid @ [y]) mod M - ?L * ucast x)) mod M"
      by (simp only: mod_M_add_left)
    also have "weightedSum ?L (x # mid) + (byteSum (mid @ [y]) mod M - ?L * ucast x)
          = (weightedSum ?L (x # mid) - ?L * ucast x) + byteSum (mid @ [y]) mod M"
      by simp
    also have "(\<dots>) mod M = ((weightedSum ?L (x # mid) - ?L * ucast x) + byteSum (mid @ [y])) mod M"
      by (simp only: mod_M_add_right)
    also have "(weightedSum ?L (x # mid) - ?L * ucast x) + byteSum (mid @ [y])
          = weightedSum ?L (mid @ [y])"
      using weightedSum_pred [of ?L mid]
      by (simp add: weightedSum_snoc byteSum_snoc algebra_simps)
    finally show ?thesis .
  qed
  show ?thesis
    using a b assms
    by (simp add: roll_def weakHash_sums Let_def
             del: byteSum.simps weightedSum.simps of_nat_Suc)
qed

text \<open>
  C7. Rolling equivalence. Let the window \<open>[offset - 1, endingByte - 1)\<close> and the
  adjacent window \<open>[offset, endingByte)\<close>, of the same length, both lie inside the
  buffer, and let \<open>(w, a, b)\<close> be the weak hash recomputed in full over the first
  window. Then one roll step from \<open>(a, b)\<close>, removing \<open>content[offset-1]\<close> and adding
  \<open>content[endingByte-1]\<close> with window length \<open>endingByte - offset\<close>, gives exactly the
  weak hash recomputed in full over the adjacent window.
\<close>

theorem roll_equivalence:
  assumes "0 < offset" "offset \<le> endingByte" "endingByte \<le> length content"
    and "weakHash (subslice content (offset - 1) (endingByte - 1)) = (w, a, b)"
  shows "roll content offset endingByte a b = weakHash (subslice content offset endingByte)"
proof (cases "offset = endingByte")
  case True
  with assms(4) have "a = 0" "b = 0"
    by (simp_all add: subslice_def weakHash_def M_def)
  with True show ?thesis
    by (simp add: roll_def subslice_def weakHash_def M_def)
next
  case False
  with assms have lt: "offset < endingByte" by simp
  let ?mid = "subslice content offset (endingByte - 1)"
  from lt assms have len: "endingByte - offset = Suc (length ?mid)"
    by (simp add: subslice_def)
  from assms(4) have ab: "a = fst (snd (weakHash (subslice content (offset - 1) (endingByte - 1))))"
      "b = snd (snd (weakHash (subslice content (offset - 1) (endingByte - 1))))"
    by simp_all
  show ?thesis
    unfolding ab subslice_Cons [OF assms(1) lt assms(3)] subslice_snoc [OF lt assms(3)]
    by (rule roll_step [OF refl refl len])
qed

theorem roll_equivalence_witness:
  "(0::nat) < 1 \<and> (1::nat) \<le> 3 \<and> 3 \<le> length [1, 2, 3 :: byte]
   \<and> weakHash (subslice [1, 2, 3] (1 - 1) (3 - 1)) = (262147, 3, 4)
   \<and> roll [1, 2, 3] 1 3 3 4 = (458757, 5, 7)
   \<and> weakHash (subslice [1, 2, 3] 1 3) = (458757, 5, 7)"
proof -
  have h: "weakHash (subslice [1, 2, 3] (1 - 1) (3 - 1)) = (262147, 3, 4)"
    by (simp add: subslice_def weakHash_def M_def)
  have t: "weakHash (subslice [1, 2, 3] 1 3) = (458757, 5, 7)"
    by (simp add: subslice_def weakHash_def M_def)
  from roll_equivalence [of 1 3 "[1, 2, 3]" 262147 3 4] h t
  show ?thesis by simp
qed

section \<open>The scan loop\<close>

lemma CalculateDifferences_loop_exit:
  "\<not> offset < length content \<Longrightarrow>
   CalculateDifferences_loop sh content hashesMap offset previousMatch aweak bweak dirty isRolling =
     (if dirty then [dataOp (subslice content previousMatch (length content))] else [])"
  by (subst CalculateDifferences_loop.simps) simp

lemma CalculateDifferences_loop_step:
  "offset < length content \<Longrightarrow>
   CalculateDifferences_loop sh content hashesMap offset previousMatch aweak bweak dirty isRolling =
     (let endingByte = windowEnd content offset;
          block = subslice content offset endingByte;
          h = windowHash content offset endingByte isRolling aweak bweak
      in case findBlock hashesMap (fst h) (sh block) of
           Some blockHash \<Rightarrow>
             (if dirty then [dataOp (subslice content previousMatch offset)] else [])
             @ [blockOp (index blockHash)]
             @ CalculateDifferences_loop sh content hashesMap
                 (offset + BlockSize) endingByte (fst (snd h)) (snd (snd h)) False False
         | None \<Rightarrow>
             CalculateDifferences_loop sh content hashesMap
               (offset + 1) previousMatch (fst (snd h)) (snd (snd h)) True True)"
  by (subst CalculateDifferences_loop.simps) simp

lemmas differ_eval =
  CalculateDifferences_def CalculateDifferences_loop_step CalculateDifferences_loop_exit
  CalculateBlockHashes_def getBlocksNumber_def blockHashAt_def buildHashesMap_def addHash_def
  windowEnd_def windowHash_def findBlock_def roll_def weakHash_def subslice_def
  BlockSize_def M_def Let_def

lemma windowEnd_bounds:
  "offset < length content \<Longrightarrow>
   offset \<le> windowEnd content offset \<and> windowEnd content offset < length content
   \<and> windowEnd content offset \<le> offset + BlockSize"
  by (auto simp: windowEnd_def BlockSize_def)

text \<open>
  C2. The claim: in every iteration of the scan loop the window is
  \<open>[offset, min (offset + BlockSize) (length content))\<close>, so a short window at the tail
  reaches the final byte. The code takes the minimum with \<open>length content - 1\<close>
  (line 140): for the two bytes 1, 2 the window at offset 0 ends at 1 and holds the
  byte 1 alone, where the claim has it end at 2 and hold both bytes.
\<close>

theorem window_stops_before_last_byte:
  "windowEnd [1, 2] 0 = 1
   \<and> subslice [1, 2 :: byte] 0 (windowEnd [1, 2] 0) = [1]
   \<and> subslice [1, 2 :: byte] 0 (min (0 + BlockSize) (length [1, 2 :: byte])) = [1, 2]"
  by (simp add: windowEnd_def subslice_def BlockSize_def)

text \<open>
  C6. The claim: when the target equals the reference content, the stream is one
  \<open>BLOCK\<close> per block, in ascending order, and no \<open>DATA\<close>. For the two bytes 1, 2
  (one block) the code emits one \<open>DATA\<close> operation carrying both bytes and no
  \<open>BLOCK\<close>, whatever the strong hash is: no window contains the last byte.
\<close>

theorem identity_emits_data:
  "CalculateDifferences sh [1, 2] (CalculateBlockHashes sh [1, 2]) = [dataOp [1, 2]]"
  by (simp add: differ_eval)

text \<open>
  C1. The claim: applying the operations computed for \<open>modified\<close> against the hashes
  of \<open>original\<close> reproduces \<open>modified\<close>. For \<open>original\<close> the one byte 5 and
  \<open>modified\<close> the two bytes 5, 7, the one-byte window at offset 0 matches the
  one-byte block 0, the scan jumps over the byte 7, and the stream is the single
  operation \<open>BLOCK 0\<close>; \<open>ApplyOps\<close> then slices \<open>content[0:2]\<close> of a one-byte
  buffer and panics, whatever the strong hash is. Were there a spare zero byte of
  capacity behind \<open>original\<close>, the result would be 5, 0: the byte 7 is in no
  operation.
\<close>

theorem roundtrip_panics_on_partial_block:
  "CalculateDifferences sh [5, 7] (CalculateBlockHashes sh [5]) = [blockOp 0]
   \<and> ApplyOps [5] (CalculateDifferences sh [5, 7] (CalculateBlockHashes sh [5])) 2
       = Inl SliceBoundsOutOfRange
   \<and> ApplyOps [5, 0] (CalculateDifferences sh [5, 7] (CalculateBlockHashes sh [5])) 2
       = Inr [5, 0]"
proof -
  have d: "CalculateDifferences sh [5, 7] (CalculateBlockHashes sh [5]) = [blockOp 0]"
    by (simp add: differ_eval)
  have "ApplyOps [5] [blockOp 0] 2 = Inl SliceBoundsOutOfRange"
    and "ApplyOps [5, 0] [blockOp 0] 2 = Inr [5, 0]"
    by (simp_all add: ApplyOps_def blockOp_def BLOCK_def BlockSize_def wrapInt_def
          copyInto_def subslice_def)
  with d show ?thesis by simp
qed

section \<open>DATA operations are never empty\<close>

lemma opCode_blockOp: "opCode (blockOp i) \<noteq> DATA"
  by (simp add: blockOp_def BLOCK_def DATA_def)

lemma loop_data_nonempty:
  "previousMatch \<le> offset \<Longrightarrow>
   (dirty \<longrightarrow> previousMatch < offset \<and> previousMatch < length content) \<Longrightarrow>
   op \<in> set (CalculateDifferences_loop sh content hashesMap offset previousMatch
               aweak bweak dirty isRolling) \<Longrightarrow>
   opCode op = DATA \<Longrightarrow> data op \<noteq> []"
proof (induction sh content hashesMap offset previousMatch aweak bweak dirty isRolling
       rule: CalculateDifferences_loop.induct)
  case (1 sh content hashesMap offset previousMatch aweak bweak dirty isRolling)
  let ?e = "windowEnd content offset"
  let ?h = "windowHash content offset ?e isRolling aweak bweak"
  let ?f = "findBlock hashesMap (fst ?h) (sh (subslice content offset ?e))"
  show ?case
  proof (cases "offset < length content")
    case False
    with "1.prems" show ?thesis
      by (auto simp: CalculateDifferences_loop_exit dataOp_def subslice_eq_Nil split: if_splits)
  next
    case inloop: True
    note wb = windowEnd_bounds [OF inloop]
    show ?thesis
    proof (cases ?f)
      case None
      from "1.prems"(3) inloop None
      have mem: "op \<in> set (CalculateDifferences_loop sh content hashesMap (offset + 1)
                  previousMatch (fst (snd ?h)) (snd (snd ?h)) True True)"
        by (simp add: CalculateDifferences_loop_step Let_def)
      show ?thesis
        by (rule "1.IH"(1) [OF inloop refl refl refl None _ _ mem "1.prems"(4)])
           (use "1.prems"(1) inloop in auto)
    next
      case (Some blockHash)
      from "1.prems"(3) inloop Some
      have "op \<in> set ((if dirty then [dataOp (subslice content previousMatch offset)] else [])
                @ [blockOp (index blockHash)]
                @ CalculateDifferences_loop sh content hashesMap
                    (offset + BlockSize) ?e (fst (snd ?h)) (snd (snd ?h)) False False)"
        by (simp add: CalculateDifferences_loop_step Let_def)
      then consider
          (d) "dirty" "op = dataOp (subslice content previousMatch offset)"
        | (b) "op = blockOp (index blockHash)"
        | (r) "op \<in> set (CalculateDifferences_loop sh content hashesMap
                    (offset + BlockSize) ?e (fst (snd ?h)) (snd (snd ?h)) False False)"
        by (auto split: if_splits)
      then show ?thesis
      proof cases
        case d
        with "1.prems"(2) inloop show ?thesis
          by (auto simp: dataOp_def subslice_eq_Nil)
      next
        case b
        with "1.prems"(4) opCode_blockOp show ?thesis by simp
      next
        case r
        show ?thesis
          by (rule "1.IH"(2) [OF inloop refl refl refl Some _ _ r "1.prems"(4)])
             (use wb in auto)
      qed
    qed
  qed
qed

text \<open>
  C9. Every \<open>DATA\<close> operation that \<open>CalculateDifferences\<close> emits carries at least one
  byte, for every target content, hash list and strong hash: when \<open>dirty\<close> is set,
  \<open>previousMatch\<close> is below \<open>offset\<close> and below the length of the content, so both
  \<open>content[previousMatch:offset]\<close> and the final \<open>content[previousMatch:]\<close> are
  non-empty.
\<close>

theorem data_ops_nonempty:
  "\<forall>op \<in> set (CalculateDifferences sh content hashes). opCode op = DATA \<longrightarrow> data op \<noteq> []"
  unfolding CalculateDifferences_def
  using loop_data_nonempty [of 0 0 False content _ sh "buildHashesMap hashes" 0 0 False]
  by auto

theorem data_ops_nonempty_witness:
  "dataOp [3, 4] \<in> set (CalculateDifferences (\<lambda>v. v) [1, 2, 3, 4]
                          (CalculateBlockHashes (\<lambda>v. v) [1, 2, 3, 4]))
   \<and> opCode (dataOp [3, 4]) = DATA \<and> data (dataOp [3, 4]) \<noteq> []"
proof -
  have ops: "CalculateDifferences (\<lambda>v. v) [1, 2, 3, 4] (CalculateBlockHashes (\<lambda>v. v) [1, 2, 3, 4])
             = [blockOp 0, dataOp [3, 4]]"
    by (simp add: differ_eval)
  have mem: "dataOp [3, 4] \<in> set (CalculateDifferences (\<lambda>v. v) [1, 2, 3, 4]
                          (CalculateBlockHashes (\<lambda>v. v) [1, 2, 3, 4]))"
    unfolding ops by simp
  have code: "opCode (dataOp [3, 4]) = DATA"
    by (simp add: dataOp_def)
  from data_ops_nonempty [of "\<lambda>v. v" "[1, 2, 3, 4]" "CalculateBlockHashes (\<lambda>v. v) [1, 2, 3, 4]"]
    mem code
  show ?thesis by blast
qed

section \<open>Bucket order\<close>

lemma foldl_addHash:
  "foldl addHash m hashes w =
     (if filter (\<lambda>h. weakHashV h = w) hashes = [] then m w
      else Some ((case m w of None \<Rightarrow> [] | Some l \<Rightarrow> l) @ filter (\<lambda>h. weakHashV h = w) hashes))"
  by (induction hashes arbitrary: m) (auto simp: addHash_def split: option.splits)

lemma buildHashesMap_bucket:
  "buildHashesMap hashes w =
     (if filter (\<lambda>h. weakHashV h = w) hashes = [] then None
      else Some (filter (\<lambda>h. weakHashV h = w) hashes))"
  by (simp add: buildHashesMap_def foldl_addHash)

lemma searchStrongHash_find:
  "searchStrongHash l hashValue = find (\<lambda>h. strongHashV h = hashValue) l"
  by (induction l) simp_all

lemma find_filter_conj: "find P (filter Q xs) = find (\<lambda>x. Q x \<and> P x) xs"
  by (induction xs) simp_all

lemma findBlock_find:
  "findBlock (buildHashesMap hashes) weak hashValue =
     find (\<lambda>h. weakHashV h = weak \<and> strongHashV h = hashValue) hashes"
proof (cases "filter (\<lambda>h. weakHashV h = weak) hashes = []")
  case True
  then have "find (\<lambda>h. weakHashV h = weak \<and> strongHashV h = hashValue) hashes = None"
    by (auto simp: find_None_iff filter_empty_conv)
  with True show ?thesis
    by (simp add: findBlock_def buildHashesMap_bucket)
next
  case False
  then show ?thesis
    by (simp add: findBlock_def buildHashesMap_bucket searchStrongHash_find find_filter_conj)
qed

text \<open>
  C10. \<open>CalculateDifferences\<close> is a function of the target content and the hash list
  (the map is only indexed, never iterated), and it is this function: the scan that
  starts at offset 0 and, in each iteration, looks for the first entry of the input
  hash list, in the order of that list, whose weak hash is the window's weak hash
  and whose strong hash is the window's strong hash. When there is one, the scan
  sends the pending \<open>DATA\<close>, then \<open>BLOCK\<close> with the index of that entry, and jumps by
  \<open>BlockSize\<close>; when there is none it moves on by one byte. So of two entries with the
  same weak and strong hash the one that comes first in the list is chosen, here the
  entry with index 3 before the entry with index 1.
\<close>

theorem first_match_in_input_order:
  "CalculateDifferences_loop sh content (buildHashesMap hashes)
       offset previousMatch aweak bweak dirty isRolling =
     (if offset < length content then
        (let endingByte = windowEnd content offset;
             block = subslice content offset endingByte;
             h = windowHash content offset endingByte isRolling aweak bweak
         in case find (\<lambda>bh. weakHashV bh = fst h \<and> strongHashV bh = sh block) hashes of
              Some blockHash \<Rightarrow>
                (if dirty then [dataOp (subslice content previousMatch offset)] else [])
                @ [blockOp (index blockHash)]
                @ CalculateDifferences_loop sh content (buildHashesMap hashes)
                    (offset + BlockSize) endingByte (fst (snd h)) (snd (snd h)) False False
            | None \<Rightarrow>
                CalculateDifferences_loop sh content (buildHashesMap hashes)
                  (offset + 1) previousMatch (fst (snd h)) (snd (snd h)) True True)
      else if dirty then [dataOp (subslice content previousMatch (length content))] else [])
   \<and> CalculateDifferences sh content hashes =
       CalculateDifferences_loop sh content (buildHashesMap hashes) 0 0 0 0 False False
   \<and> CalculateDifferences sh [1, 2, 0]
         [\<lparr>index = 3, strongHashV = sh [1, 2], weakHashV = 262147\<rparr>,
          \<lparr>index = 1, strongHashV = sh [1, 2], weakHashV = 262147\<rparr>]
       = [blockOp 3, dataOp [0]]"
proof -
  have step: "CalculateDifferences_loop sh content (buildHashesMap hashes)
       offset previousMatch aweak bweak dirty isRolling =
     (if offset < length content then
        (let endingByte = windowEnd content offset;
             block = subslice content offset endingByte;
             h = windowHash content offset endingByte isRolling aweak bweak
         in case find (\<lambda>bh. weakHashV bh = fst h \<and> strongHashV bh = sh block) hashes of
              Some blockHash \<Rightarrow>
                (if dirty then [dataOp (subslice content previousMatch offset)] else [])
                @ [blockOp (index blockHash)]
                @ CalculateDifferences_loop sh content (buildHashesMap hashes)
                    (offset + BlockSize) endingByte (fst (snd h)) (snd (snd h)) False False
            | None \<Rightarrow>
                CalculateDifferences_loop sh content (buildHashesMap hashes)
                  (offset + 1) previousMatch (fst (snd h)) (snd (snd h)) True True)
      else if dirty then [dataOp (subslice content previousMatch (length content))] else [])"
    by (subst CalculateDifferences_loop.simps) (simp only: findBlock_find)
  have run: "CalculateDifferences sh [1, 2, 0]
         [\<lparr>index = 3, strongHashV = sh [1, 2], weakHashV = 262147\<rparr>,
          \<lparr>index = 1, strongHashV = sh [1, 2], weakHashV = 262147\<rparr>]
       = [blockOp 3, dataOp [0]]"
    by (simp add: differ_eval)
  from step run show ?thesis
    by (simp only: CalculateDifferences_def simp_thms)
qed

section \<open>Reconstruction: block indices\<close>

lemmas apply_eval =
  ApplyOps_def blockOp_def dataOp_def BLOCK_def DATA_def BlockSize_def wrapInt_def
  copyInto_def subslice_def Let_def

text \<open>
  C3. The claim: a \<open>BLOCK\<close> operation that designates the final, partial block copies
  that block's true length, \<open>min BlockSize (length - blockIndex * BlockSize)\<close> bytes.
  The code slices \<open>BlockSize\<close> bytes on both sides whatever the block is. For the
  three bytes 1, 2, 3 the final block is block 1, one byte long: the stream
  \<open>BLOCK 0, BLOCK 1\<close> with output length 3 panics at \<open>result[2:4]\<close>, and the stream
  \<open>BLOCK 1\<close> with output length 2 panics at \<open>content[2:4]\<close>; nothing is copied.
  Were there a spare zero byte of capacity behind the content, \<open>BLOCK 1\<close> would copy
  two bytes, 3 and that zero, not one.
\<close>

theorem partial_block_copy_panics:
  "getBlocksNumber [1, 2, 3 :: byte] = 2
   \<and> ApplyOps [1, 2, 3] [blockOp 0, blockOp 1] 3 = Inl SliceBoundsOutOfRange
   \<and> ApplyOps [1, 2, 3] [blockOp 1] 2 = Inl SliceBoundsOutOfRange
   \<and> ApplyOps [1, 2, 3, 0] [blockOp 1] 2 = Inr [3, 0]"
  by (simp add: apply_eval getBlocksNumber_def)


lemma wrapInt_id: "- (2 ^ 63) \<le> x \<Longrightarrow> x < 2 ^ 63 \<Longrightarrow> wrapInt x = x"
  by (simp add: wrapInt_def)

lemma wrapInt_min: "wrapInt (2 ^ 63) = - (2 ^ 63)"
  by (simp add: wrapInt_def)


lemma length_le_blocks: "length content \<le> BlockSize * getBlocksNumber content"
  unfolding getBlocksNumber_def BlockSize_def Let_def by (simp split: if_splits) arith

lemma wrapInt_above: "2 ^ 63 \<le> x \<Longrightarrow> x < 3 * 2 ^ 63 \<Longrightarrow> wrapInt x = x - 2 ^ 64"
proof -
  assume a: "2 ^ 63 \<le> x" "x < 3 * 2 ^ 63"
  let ?y = "x + 2 ^ 63 - (2 ^ 64 :: int)"
  from a have "0 \<le> ?y" "?y < 2 ^ 64" by simp_all
  then have "?y mod 2 ^ 64 = ?y" by (rule mod_pos_pos_trivial)
  moreover have "?y mod 2 ^ 64 = (x + 2 ^ 63) mod 2 ^ 64" by (rule minus_mod_self2)
  ultimately show ?thesis by (simp add: wrapInt_def)
qed

lemma wrapInt_below: "- (3 * 2 ^ 63) \<le> x \<Longrightarrow> x < - (2 ^ 63) \<Longrightarrow> wrapInt x = x + 2 ^ 64"
proof -
  assume a: "- (3 * 2 ^ 63) \<le> x" "x < - (2 ^ 63)"
  let ?y = "x + 2 ^ 63 + (2 ^ 64 :: int)"
  from a have "0 \<le> ?y" "?y < 2 ^ 64" by simp_all
  then have "?y mod 2 ^ 64 = ?y" by (rule mod_pos_pos_trivial)
  moreover have "?y mod 2 ^ 64 = (x + 2 ^ 63) mod 2 ^ 64" by (rule mod_add_self2)
  ultimately show ?thesis by (simp add: wrapInt_def)
qed

text \<open>The upper bound of a slice of \<open>BlockSize\<close> bytes that starts at offset \<open>2 * k\<close>.\<close>

lemma high_bound_beyond:
  assumes k: "0 \<le> k" "k < 2 ^ 62"
    and c: "int cap < (k + 1) * 2 \<or> 2 ^ 63 \<le> (k + 1) * 2"
  shows "wrapInt (2 * k + 2) < 2 * k \<or> int cap < wrapInt (2 * k + 2)"
proof (cases "2 * k + 2 < 2 ^ 63")
  case True
  with k have "wrapInt (2 * k + 2) = 2 * k + 2" by (simp add: wrapInt_id)
  with c True show ?thesis by simp
next
  case False
  with k have "2 * k + 2 = 2 ^ 63" by simp
  then have "wrapInt (2 * k + 2) = - (2 ^ 63)" by (simp only: wrapInt_min)
  with k show ?thesis by simp
qed

lemma block_outside_capacity_panics:
  assumes "opCode op = BLOCK"
    and rng: "- (2 ^ 63) \<le> blockIndex op" "blockIndex op < 2 ^ 63"
    and direct: "\<not> fullBlockWithin (length buf) (blockIndex op)"
    and wrapped: "\<not> fullBlockWithin (length buf) (blockIndex op + 2 ^ 63)"
  shows "ApplyOps_loop buf (op # ops) result offset = Inl SliceBoundsOutOfRange"
proof -
  let ?i = "blockIndex op"
  let ?lo = "wrapInt (?i * int BlockSize)"
  let ?hi = "wrapInt (?lo + int BlockSize)"
  have "?lo < 0 \<or> ?hi < ?lo \<or> int (length buf) < ?hi"
  proof -
    consider (a) "0 \<le> ?i" "?i < 2 ^ 62" | (b) "2 ^ 62 \<le> ?i"
      | (c) "- (2 ^ 62) \<le> ?i" "?i < 0" | (d) "?i < - (2 ^ 62)"
      by linarith
    then show ?thesis
    proof cases
      case a
      then have l: "?lo = 2 * ?i" by (simp add: BlockSize_def wrapInt_id)
      from direct a have "int (length buf) < (?i + 1) * 2 \<or> 2 ^ 63 \<le> (?i + 1) * 2"
        by (auto simp: fullBlockWithin_def BlockSize_def)
      from high_bound_beyond [OF a this] show ?thesis
        unfolding l by (simp add: BlockSize_def)
    next
      case b
      with rng have "?lo = 2 * ?i - 2 ^ 64"
        using wrapInt_above [of "2 * ?i"] by (simp add: BlockSize_def mult.commute)
      with rng show ?thesis by simp
    next
      case c
      then have "?lo = 2 * ?i" by (simp add: BlockSize_def wrapInt_id)
      with c show ?thesis by simp
    next
      case d
      let ?k = "?i + 2 ^ 63"
      from d rng have k: "0 \<le> ?k" "?k < 2 ^ 62" by simp_all
      from d rng have l: "?lo = 2 * ?k"
        using wrapInt_below [of "2 * ?i"] by (simp add: BlockSize_def mult.commute)
      from wrapped k have "int (length buf) < (?k + 1) * 2 \<or> 2 ^ 63 \<le> (?k + 1) * 2"
        by (auto simp: fullBlockWithin_def BlockSize_def)
      from high_bound_beyond [OF k this] show ?thesis
        unfolding l by (simp add: BlockSize_def)
    qed
  qed
  with assms(1) show ?thesis by (simp add: Let_def)
qed

lemma ApplyOps_loop_step_cases:
  "ApplyOps_loop content (op # ops) result offset = Inl SliceBoundsOutOfRange
   \<or> (\<exists>result' offset'. ApplyOps_loop content (op # ops) result offset
                           = ApplyOps_loop content ops result' offset')"
  by (auto simp: Let_def)

lemma ApplyOps_loop_panicking_op:
  "op \<in> set ops \<Longrightarrow>
   (\<And>ops' result' offset'.
      ApplyOps_loop buf (op # ops') result' offset' = Inl SliceBoundsOutOfRange) \<Longrightarrow>
   \<exists>e. ApplyOps_loop buf ops result offset = Inl e"
proof (induction ops arbitrary: result offset)
  case Nil
  then show ?case by simp
next
  case (Cons x ops)
  show ?case
  proof (cases "x = op")
    case True
    with Cons.prems(2) show ?thesis by blast
  next
    case False
    with Cons.prems have "op \<in> set ops" by simp
    then have ih: "\<exists>e. ApplyOps_loop buf ops result' offset' = Inl e" for result' offset'
      using Cons.prems(2) by (rule Cons.IH)
    from ApplyOps_loop_step_cases [of buf x ops result offset] ih show ?thesis
      by metis
  qed
qed

lemma out_of_range_not_within_length:
  assumes "i < 0 \<or> int (getBlocksNumber content) \<le> i"
  shows "\<not> fullBlockWithin (length content) i"
proof (cases "i < 0")
  case True
  then show ?thesis by (simp add: fullBlockWithin_def)
next
  case False
  with assms have "int (getBlocksNumber content) \<le> i" by simp
  moreover from length_le_blocks [of content]
  have "int (length content) \<le> 2 * int (getBlocksNumber content)"
    by (simp add: BlockSize_def)
  ultimately show ?thesis by (simp add: fullBlockWithin_def BlockSize_def)
qed

text \<open>
  C4, as stated, fails, in two ways. A Go \<open>int\<close> product wraps, so the block index
  \<open>- 2 ^ 63\<close>, which is outside the one block of the two bytes 1, 2, gives the slice
  bounds \<open>[0:2]\<close>, and \<open>ApplyOps\<close> returns block 0 as a successful result. And the
  slice is checked against the capacity of the buffer, not its length, so with two
  spare zero bytes of capacity behind the same two bytes the index 1, which is outside
  the one block, returns those spare bytes as a successful result.
\<close>

theorem out_of_range_index_returns:
  "getBlocksNumber [1, 2 :: byte] = 1
   \<and> blockIndex (blockOp (- 9223372036854775808)) < 0
   \<and> ApplyOps [1, 2] [blockOp (- 9223372036854775808)] 2 = Inr [1, 2]
   \<and> int (getBlocksNumber [1, 2 :: byte]) \<le> blockIndex (blockOp 1)
   \<and> ApplyOps ([1, 2] @ [0, 0]) [blockOp 1] 2 = Inr [0, 0]"
  by (simp add: apply_eval getBlocksNumber_def)

text \<open>
  C4, amended. The reference buffer is \<open>content\<close> followed by its spare capacity
  \<open>spare\<close>. If the stream holds a \<open>BLOCK\<close> operation whose index is outside the
  blocks of \<open>content\<close> (negative, or at least the number of blocks), then \<open>ApplyOps\<close>
  panics and returns no buffer, whatever the other operations and the output length
  are, unless the \<open>BlockSize\<close> bytes that the code slices lie within the capacity:
  either the buffer has spare capacity and the index is that of a full block within
  the capacity, or the index plus \<open>2 ^ 63\<close> is that of a full block within the
  capacity (the product with \<open>BlockSize\<close> has wrapped). For a buffer whose capacity
  equals its length, every index outside the blocks makes \<open>ApplyOps\<close> panic, except
  \<open>k - 2 ^ 63\<close> for a full block \<open>k\<close> of the content.
\<close>

theorem bad_index_aborts:
  assumes "op \<in> set ops" "opCode op = BLOCK"
    and out: "blockIndex op < 0 \<or> int (getBlocksNumber content) \<le> blockIndex op"
    and rng: "- (2 ^ 63) \<le> blockIndex op" "blockIndex op < 2 ^ 63"
    and nospare: "spare = [] \<or> \<not> fullBlockWithin (length (content @ spare)) (blockIndex op)"
    and nowrap: "\<not> fullBlockWithin (length (content @ spare)) (blockIndex op + 2 ^ 63)"
  shows "\<exists>e. ApplyOps (content @ spare) ops fileSize = Inl e"
proof -
  from nospare out_of_range_not_within_length [OF out]
  have direct: "\<not> fullBlockWithin (length (content @ spare)) (blockIndex op)"
    by auto
  have "ApplyOps_loop (content @ spare) (op # ops') result' offset' = Inl SliceBoundsOutOfRange"
    for ops' result' offset'
    by (rule block_outside_capacity_panics [OF assms(2) rng direct nowrap])
  with assms(1) have "\<exists>e. ApplyOps_loop (content @ spare) ops result offset = Inl e"
    for result offset
    by (rule ApplyOps_loop_panicking_op)
  then show ?thesis by (simp add: ApplyOps_def)
qed

theorem bad_index_aborts_witness:
  "blockOp (2 ^ 62) \<in> set [dataOp [9], blockOp (2 ^ 62)] \<and> opCode (blockOp (2 ^ 62)) = BLOCK
   \<and> int (getBlocksNumber [1, 2, 3 :: byte]) \<le> blockIndex (blockOp (2 ^ 62))
   \<and> - (2 ^ 63) \<le> blockIndex (blockOp (2 ^ 62)) \<and> blockIndex (blockOp (2 ^ 62)) < 2 ^ 63
   \<and> \<not> fullBlockWithin (length ([1, 2, 3 :: byte] @ [0])) (blockIndex (blockOp (2 ^ 62)))
   \<and> \<not> fullBlockWithin (length ([1, 2, 3 :: byte] @ [0])) (blockIndex (blockOp (2 ^ 62)) + 2 ^ 63)
   \<and> (\<exists>e. ApplyOps ([1, 2, 3] @ [0]) [dataOp [9], blockOp (2 ^ 62)] 3 = Inl e)"
  using bad_index_aborts [of "blockOp (2 ^ 62)" "[dataOp [9], blockOp (2 ^ 62)]" "[1, 2, 3]" "[0]" 3]
  by (simp add: blockOp_def getBlocksNumber_def BlockSize_def fullBlockWithin_def)

section \<open>Reconstruction: output length\<close>









end
